theory Spec2Isabelle
  imports Complex_Main "HOL-Library.Word" "HOL-Library.Sublist"
begin

section \<open>Utterance segmenter: \<open>AudioBuffer\<close>\<close>

text \<open>
  The model follows \<^verbatim>\<open>onvif-voice-assistant/rootfs/app/app.py\<close>. A frame is a Python
  \<^verbatim>\<open>bytes\<close> object. The voice-activity detector is an external library whose verdict on a
  frame is not computed by this program, so every frame arrives together with the outcome
  of the call \<^verbatim>\<open>self.vad.is_speech(frame, self.sample_rate)\<close>: a boolean, or an exception.
\<close>

type_synonym byte = "8 word"
type_synonym bytes = "byte list"

datatype py_error = ValueError | KeyError

datatype vad_result = Vad_returns bool | Vad_raises

record AudioBuffer =
  sample_rate :: nat
  buffer :: "bytes list"
  is_speaking :: bool
  silence_frames :: nat
  max_silence_frames :: nat
  max_recording_frames :: nat
  recorded_frames :: nat
  min_energy_threshold :: int

text \<open>\<^verbatim>\<open>AudioBuffer.__init__\<close>: the constants are attributes set by the constructor.\<close>

definition AudioBuffer_init :: "nat \<Rightarrow> AudioBuffer" where
  "AudioBuffer_init rate =
     \<lparr>sample_rate = rate, buffer = [], is_speaking = False, silence_frames = 0,
      max_silence_frames = 30, max_recording_frames = 1000, recorded_frames = 0,
      min_energy_threshold = 500\<rparr>"

text \<open>
  \<^verbatim>\<open>array.array('h', frame)\<close>: the bytes read as signed 16-bit integers in the byte order of
  the machine (little-endian here); a byte string of odd length raises \<^verbatim>\<open>ValueError\<close>.
\<close>

definition sample_h :: "byte \<Rightarrow> byte \<Rightarrow> int" where
  "sample_h lo hi =
     (let u = uint lo + 256 * uint hi in if 32768 \<le> u then u - 65536 else u)"

fun samples_h :: "bytes \<Rightarrow> py_error + int list" where
  "samples_h [] = Inr []"
| "samples_h [b] = Inl ValueError"
| "samples_h (lo # hi # rest) =
     (case samples_h rest of
        Inl e \<Rightarrow> Inl e
      | Inr ss \<Rightarrow> Inr (sample_h lo hi # ss))"

text \<open>
  \<^verbatim>\<open>_calculate_energy\<close>: the root mean square of the samples, \<open>0\<close> for a frame without
  samples. The source computes in double precision; the model computes in the reals.
\<close>

definition sum_squares :: "int list \<Rightarrow> int" where
  "sum_squares ss = sum_list (map (\<lambda>s. s * s) ss)"

definition calculate_energy :: "bytes \<Rightarrow> py_error + real" where
  "calculate_energy frame =
     (case samples_h frame of
        Inl e \<Rightarrow> Inl e
      | Inr ss \<Rightarrow>
          Inr (if ss = [] then 0
               else sqrt (real_of_int (sum_squares ss) / real (length ss))))"

text \<open>
  The first part of \<^verbatim>\<open>add_frame\<close> (the VAD call with its fail-open \<^verbatim>\<open>except\<close>, then the
  energy filter): the final value of the local variable \<^verbatim>\<open>is_speech\<close>. The energy is
  computed outside the \<^verbatim>\<open>try\<close>, so its \<^verbatim>\<open>ValueError\<close> leaves \<^verbatim>\<open>add_frame\<close>.
\<close>

definition classify :: "int \<Rightarrow> vad_result \<times> bytes \<Rightarrow> py_error + bool" where
  "classify threshold inp =
     (let is_speech = (case fst inp of Vad_returns b \<Rightarrow> b | Vad_raises \<Rightarrow> True) in
      case calculate_energy (snd inp) of
        Inl e \<Rightarrow> Inl e
      | Inr energy \<Rightarrow>
          Inr (if is_speech \<and> energy < real_of_int threshold then False else is_speech))"

text \<open>\<^verbatim>\<open>AudioBuffer.reset\<close>.\<close>

definition reset :: "AudioBuffer \<Rightarrow> AudioBuffer" where
  "reset s = s\<lparr>buffer := [], is_speaking := False, silence_frames := 0, recorded_frames := 0\<rparr>"

text \<open>
  \<^verbatim>\<open>AudioBuffer.add_frame\<close>: the returned value (\<open>None\<close> or the joined buffer) and the
  state after the call.
\<close>

definition add_frame ::
  "AudioBuffer \<Rightarrow> vad_result \<times> bytes \<Rightarrow> py_error + (bytes option \<times> AudioBuffer)" where
  "add_frame s inp =
     (case classify (min_energy_threshold s) inp of
        Inl e \<Rightarrow> Inl e
      | Inr is_speech \<Rightarrow>
          Inr (if is_speech then
                 (let s1 = (if \<not> is_speaking s then s\<lparr>recorded_frames := 0\<rparr> else s);
                      s2 = s1\<lparr>is_speaking := True, silence_frames := 0,
                              buffer := buffer s1 @ [snd inp],
                              recorded_frames := recorded_frames s1 + 1\<rparr>
                  in if max_recording_frames s2 \<le> recorded_frames s2
                     then (Some (concat (buffer s2)), reset s2)
                     else (None, s2))
               else if is_speaking s then
                 (let s1 = s\<lparr>silence_frames := silence_frames s + 1,
                             buffer := buffer s @ [snd inp]\<rparr>
                  in if max_silence_frames s1 \<le> silence_frames s1
                     then (Some (concat (buffer s1)), reset s1)
                     else (None, s1))
               else (None, s)))"

text \<open>
  The driver's loop over the frames (with VAD enabled) calls \<^verbatim>\<open>add_frame\<close> once per frame,
  in order; \<open>feed\<close> collects what each call returned and the state after the last call.
\<close>

fun feed ::
  "AudioBuffer \<Rightarrow> (vad_result \<times> bytes) list \<Rightarrow> py_error + (bytes option list \<times> AudioBuffer)" where
  "feed s [] = Inr ([], s)"
| "feed s (x # xs) =
     (case add_frame s x of
        Inl e \<Rightarrow> Inl e
      | Inr (out, s') \<Rightarrow>
          (case feed s' xs of
             Inl e \<Rightarrow> Inl e
           | Inr (outs, s'') \<Rightarrow> Inr (out # outs, s'')))"

definition idle :: "AudioBuffer \<Rightarrow> bool" where
  "idle s \<longleftrightarrow> buffer s = [] \<and> \<not> is_speaking s \<and> silence_frames s = 0 \<and> recorded_frames s = 0"

text \<open>
  Predicates used to state and prove the properties. \<open>is_speech_frame\<close> is the final
  classification of a frame as speech. \<open>tracks s cur\<close> relates the state to the frames
  \<open>cur\<close> fed since the onset of the current recording (none when the segmenter is not
  speaking). \<open>same_config\<close> says that two states agree on the constructor's constants.
\<close>

definition is_speech_frame :: "int \<Rightarrow> vad_result \<times> bytes \<Rightarrow> bool" where
  "is_speech_frame threshold x \<longleftrightarrow> classify threshold x = Inr True"

definition tracks :: "AudioBuffer \<Rightarrow> (vad_result \<times> bytes) list \<Rightarrow> bool" where
  "tracks s cur \<longleftrightarrow>
     buffer s = map snd cur \<and> (is_speaking s \<longleftrightarrow> cur \<noteq> []) \<and>
     (cur \<noteq> [] \<longrightarrow>
        is_speech_frame (min_energy_threshold s) (hd cur) \<and>
        recorded_frames s = length (filter (is_speech_frame (min_energy_threshold s)) cur) \<and>
        (0 < max_recording_frames s \<longrightarrow> recorded_frames s < max_recording_frames s) \<and>
        silence_frames s < length cur)"

definition same_config :: "AudioBuffer \<Rightarrow> AudioBuffer \<Rightarrow> bool" where
  "same_config s s' \<longleftrightarrow>
     sample_rate s' = sample_rate s \<and> max_silence_frames s' = max_silence_frames s \<and>
     max_recording_frames s' = max_recording_frames s \<and>
     min_energy_threshold s' = min_energy_threshold s"

section \<open>Command matcher\<close>

text \<open>
  A Python string is a sequence of Unicode code points. \<open>unicode_isspace\<close> is the set of
  code points that \<^verbatim>\<open>str.isspace\<close>, \<^verbatim>\<open>str.strip\<close> and \<^verbatim>\<open>str.split\<close> treat as whitespace:
  U+0009 to U+000D, U+001C to U+0020, U+0085, U+00A0, U+1680, U+2000 to U+200A, U+2028,
  U+2029, U+202F, U+205F and U+3000.

  The matcher is modelled on strings of 8-bit characters, a character standing for the
  code point of the same number, so on the code points below 256. There \<^verbatim>\<open>str.lower\<close> maps
  \<open>A\<close> to \<open>Z\<close> (65 to 90) and the Latin-1 capitals U+00C0 to U+00DE, without the
  multiplication sign U+00D7, to the code point 32 above, and leaves every other
  character.
\<close>

definition unicode_isspace :: "nat \<Rightarrow> bool" where
  "unicode_isspace n \<longleftrightarrow>
     (0x09 \<le> n \<and> n \<le> 0x0D) \<or> (0x1C \<le> n \<and> n \<le> 0x20) \<or> n = 0x85 \<or> n = 0xA0 \<or>
     n = 0x1680 \<or> (0x2000 \<le> n \<and> n \<le> 0x200A) \<or> n = 0x2028 \<or> n = 0x2029 \<or>
     n = 0x202F \<or> n = 0x205F \<or> n = 0x3000"

definition isspace :: "char \<Rightarrow> bool" where
  "isspace c \<longleftrightarrow> unicode_isspace (of_char c)"

definition lower_char :: "char \<Rightarrow> char" where
  "lower_char c =
     (let n = (of_char c :: nat) in
      if (65 \<le> n \<and> n \<le> 90) \<or> (192 \<le> n \<and> n \<le> 222 \<and> n \<noteq> 215)
      then char_of (n + 32) else c)"

definition lower :: "string \<Rightarrow> string" where
  "lower s = map lower_char s"

text \<open>
  \<^verbatim>\<open>s.rstrip(chars)\<close> with the set of characters given as a predicate, \<^verbatim>\<open>s.strip()\<close> on the
  matcher's strings and on sequences of code points (\<open>unicode_strip\<close>), and
  \<^verbatim>\<open>s.split()\<close>: the maximal runs of non-space characters, in order.
\<close>

definition rstrip_chars :: "('a \<Rightarrow> bool) \<Rightarrow> 'a list \<Rightarrow> 'a list" where
  "rstrip_chars p s = rev (dropWhile p (rev s))"

definition strip :: "string \<Rightarrow> string" where
  "strip s = rstrip_chars isspace (dropWhile isspace s)"

definition unicode_strip :: "nat list \<Rightarrow> nat list" where
  "unicode_strip s = rstrip_chars unicode_isspace (dropWhile unicode_isspace s)"

fun split_from :: "string \<Rightarrow> string \<Rightarrow> string list" where
  "split_from w [] = (if w = [] then [] else [w])"
| "split_from w (c # cs) =
     (if isspace c then (if w = [] then split_from [] cs else w # split_from [] cs)
      else split_from (w @ [c]) cs)"

definition split :: "string \<Rightarrow> string list" where
  "split s = split_from [] s"

text \<open>
  \<^verbatim>\<open>list.index(word)\<close>: the position of the first occurrence, \<^verbatim>\<open>ValueError\<close> when there is
  none; and the list comprehension \<^verbatim>\<open>[text_words.index(word) for word in pattern_words]\<close>.
\<close>

fun index :: "'a list \<Rightarrow> 'a \<Rightarrow> py_error + nat" where
  "index [] w = Inl ValueError"
| "index (x # xs) w = (if x = w then Inr 0 else (case index xs w of Inl e \<Rightarrow> Inl e | Inr i \<Rightarrow> Inr (Suc i)))"

fun indices_of :: "'a list \<Rightarrow> 'a list \<Rightarrow> py_error + nat list" where
  "indices_of text_words [] = Inr []"
| "indices_of text_words (w # ws) =
     (case index text_words w of
        Inl e \<Rightarrow> Inl e
      | Inr i \<Rightarrow> (case indices_of text_words ws of Inl e \<Rightarrow> Inl e | Inr is \<Rightarrow> Inr (i # is)))"

text \<open>
  A configured command: a dictionary with the key \<^verbatim>\<open>"pattern"\<close> (absent: \<^verbatim>\<open>KeyError\<close>) and the
  actions, which the matcher does not look at. \<open>command_matches\<close> is the body of the loop in
  \<^verbatim>\<open>_process_command\<close>; \<open>first_match\<close> is the loop, which stops at the first command that
  matches; \<open>process_command\<close> is the whole method, returning the command whose actions are
  executed (\<open>None\<close>: no command matched). The caller passes the transcript stripped and
  lower-cased.
\<close>

record 'a command =
  pattern :: "string option"
  actions :: 'a

definition command_matches :: "string \<Rightarrow> 'a command \<Rightarrow> py_error + bool" where
  "command_matches text_clean command =
     (case pattern command of
        None \<Rightarrow> Inl KeyError
      | Some p \<Rightarrow>
          (let pattern = strip (lower p);
               text_words = split text_clean;
               pattern_words = split pattern
           in if text_clean = pattern then Inr True
              else if \<forall>word\<in>set pattern_words. word \<in> set text_words then
                (case indices_of text_words pattern_words of
                   Inl e \<Rightarrow> Inr False
                 | Inr indices \<Rightarrow> Inr (indices = sort indices))
              else Inr False))"

text \<open>
  The word-order test of the loop body on the two word lists, used to compare it with the
  subsequence relation.
\<close>

definition order_check :: "string list \<Rightarrow> string list \<Rightarrow> bool" where
  "order_check text_words pattern_words \<longleftrightarrow>
     (\<forall>word\<in>set pattern_words. word \<in> set text_words) \<and>
     (case indices_of text_words pattern_words of Inl e \<Rightarrow> False | Inr indices \<Rightarrow> indices = sort indices)"

fun first_match :: "string \<Rightarrow> 'a command list \<Rightarrow> py_error + 'a command option" where
  "first_match text_clean [] = Inr None"
| "first_match text_clean (command # commands) =
     (case command_matches text_clean command of
        Inl e \<Rightarrow> Inl e
      | Inr True \<Rightarrow> Inr (Some command)
      | Inr False \<Rightarrow> first_match text_clean commands)"

definition process_command :: "string \<Rightarrow> 'a command list \<Rightarrow> py_error + 'a command option" where
  "process_command text commands =
     first_match (rstrip_chars (\<lambda>c. c \<in> set ''.,!?'') (strip text)) commands"

section \<open>Transcription client: \<open>WyomingClient.send_audio\<close>\<close>

text \<open>
  The network is outside the program. One call of \<^verbatim>\<open>send_audio\<close> runs against a \<open>server\<close>
  that fixes what the network does during the call: whether the connection is accepted,
  which \<^verbatim>\<open>write_event\<close> (counted from 0) raises, if any, and what the successive calls of
  \<^verbatim>\<open>read_event\<close> produce and after how many seconds. After the listed reads the server stays
  silent for ever. The result of the call records the returned value, how many connections
  were opened, whether one is still open when the call returns, the events written, and the
  seconds between the end of the writes and the return. The text of a transcript is a
  Python string received from the network: a list of code points, of any value (\<open>None\<close>:
  the event carries no text, and reading it raises).
\<close>

datatype event = Transcript "nat list option" | Other_event

datatype read_result = Event event | End_of_stream | Read_raises

datatype message = AudioStart int int int | AudioChunk int int int bytes | AudioStop

record server =
  accepts :: bool
  failing_write :: "nat option"
  reads :: "(real \<times> read_result) list"

record call =
  result :: "nat list option"
  connections_opened :: nat
  connection_open_after :: bool
  written :: "message list"
  waited :: "real option"

text \<open>
  The slices \<^verbatim>\<open>audio_data[i:i + chunk_size]\<close> for \<^verbatim>\<open>i in range(0, len(audio_data), chunk_size)\<close>
  with a positive step.
\<close>

function chunks :: "nat \<Rightarrow> 'a list \<Rightarrow> 'a list list" where
  "chunks n xs = (if n = 0 \<or> xs = [] then [] else take n xs # chunks n (drop n xs))"
  by pat_completeness auto
termination
  by (relation "measure (\<lambda>(n, xs). length xs)") auto

declare chunks.simps [simp del]

text \<open>
  The response timeout in seconds, from the number of bytes of audio (the source divides
  by 16000 samples per second and 2 bytes per sample whatever the declared rate is).
\<close>

definition response_timeout :: "nat \<Rightarrow> real" where
  "response_timeout len =
     (let audio_duration = real len / (16000 * 2) in max 30 (min 60 (audio_duration * 0.5)))"

text \<open>
  The \<^verbatim>\<open>while True\<close> loop. \<open>elapsed\<close> is the time since \<^verbatim>\<open>start_time\<close>. Every read is wrapped in
  \<^verbatim>\<open>asyncio.wait_for(..., timeout=5.0)\<close>: a read that takes more than 5 seconds raises
  \<^verbatim>\<open>asyncio.TimeoutError\<close> after 5 seconds, which the \<^verbatim>\<open>except\<close> clause of \<^verbatim>\<open>send_audio\<close> turns
  into the result \<open>None\<close>, as it does for any other exception. The function returns the
  value and the time at which \<^verbatim>\<open>send_audio\<close> returns it.
\<close>

fun await_transcript ::
  "real \<Rightarrow> real \<Rightarrow> (real \<times> read_result) list \<Rightarrow> nat list option \<times> real" where
  "await_transcript timeout elapsed [] =
     (if elapsed > timeout then (None, elapsed) else (None, elapsed + 5))"
| "await_transcript timeout elapsed ((delay, r) # rest) =
     (if elapsed > timeout then (None, elapsed)
      else if delay > 5 then (None, elapsed + 5)
      else (case r of
              Read_raises \<Rightarrow> (None, elapsed + delay)
            | End_of_stream \<Rightarrow> (None, elapsed + delay)
            | Event Other_event \<Rightarrow> await_transcript timeout (elapsed + delay) rest
            | Event (Transcript None) \<Rightarrow> (None, elapsed + delay)
            | Event (Transcript (Some t)) \<Rightarrow>
                (let text = unicode_strip t in
                 if text \<noteq> [] then (Some text, elapsed + delay) else (None, elapsed + delay))))"

text \<open>
  \<^verbatim>\<open>send_audio\<close>. The connection is opened by \<^verbatim>\<open>async with AsyncClient.from_uri(...)\<close> and closed
  when that block is left, on every path. A chunk size of zero makes \<^verbatim>\<open>range\<close> raise after
  \<^verbatim>\<open>AudioStart\<close> was written.
\<close>

definition send_audio :: "server \<Rightarrow> bytes \<Rightarrow> int \<Rightarrow> int \<Rightarrow> int \<Rightarrow> call" where
  "send_audio srv audio_data rate width channels =
     (if \<not> accepts srv then
        \<lparr>result = None, connections_opened = 0, connection_open_after = False,
         written = [], waited = None\<rparr>
      else
        (let chunk_size = 1024 * width * channels;
             planned =
               (if chunk_size = 0 then [AudioStart rate width channels]
                else AudioStart rate width channels #
                     map (AudioChunk rate width channels) (chunks (nat chunk_size) audio_data) @
                     [AudioStop]);
             sent = (case failing_write srv of None \<Rightarrow> planned | Some k \<Rightarrow> take k planned)
         in if chunk_size = 0 \<or> length sent < length planned then
              \<lparr>result = None, connections_opened = 1, connection_open_after = False,
               written = sent, waited = None\<rparr>
            else
              (let (r, t) = await_transcript (response_timeout (length audio_data)) 0 (reads srv)
               in \<lparr>result = r, connections_opened = 1, connection_open_after = False,
                   written = sent, waited = Some t\<rparr>)))"

text \<open>
  The older client in \<^verbatim>\<open>app.py\<close> at the root of the repository keeps its socket in
  \<^verbatim>\<open>self.socket\<close> between calls. \<open>legacy_send_audio socket io audio\<close> is one call: \<open>socket\<close>
  says whether \<^verbatim>\<open>self.socket\<close> is set before the call. \<^verbatim>\<open>connect\<close> assigns \<^verbatim>\<open>self.socket\<close> before
  it connects, so the attribute stays set when connecting fails. An exception while
  sending reaches the \<^verbatim>\<open>except\<close> clause, which disconnects. \<^verbatim>\<open>_receive_message\<close> catches its
  own exceptions and returns \<open>None\<close> for them and for a closed connection
  (\<open>Received_nothing\<close>), so \<^verbatim>\<open>send_audio\<close> then returns \<open>None\<close> without disconnecting. The
  same happens for a reply that is a JSON object of another type, or a JSON value that
  Python takes as false (\<open>Received_other\<close>). A reply that is any other JSON value, or
  whose \<^verbatim>\<open>"data"\<close> is not an object (\<open>Received_non_object\<close>), makes \<^verbatim>\<open>.get\<close> raise
  \<^verbatim>\<open>AttributeError\<close> in \<^verbatim>\<open>send_audio\<close>, whose \<^verbatim>\<open>except\<close> clause disconnects.
\<close>

datatype legacy_response =
  Received_transcript "nat list" | Received_other | Received_nothing | Received_non_object

record legacy_io =
  connect_succeeds :: bool
  failing_send :: "nat option"
  received :: legacy_response

record legacy_call =
  legacy_result :: "nat list option"
  socket_after :: bool
  connect_attempts :: nat

definition legacy_send_audio :: "bool \<Rightarrow> legacy_io \<Rightarrow> bytes \<Rightarrow> legacy_call" where
  "legacy_send_audio socket io audio_data =
     (if \<not> socket \<and> \<not> connect_succeeds io then
        \<lparr>legacy_result = None, socket_after = True, connect_attempts = 1\<rparr>
      else
        (let attempts = (if socket then 0 else 1);
             sends = 2 + length (chunks 8192 audio_data);
             send_raises = (case failing_send io of Some k \<Rightarrow> k < sends | None \<Rightarrow> False)
         in if send_raises \<or> received io = Received_non_object
            then \<lparr>legacy_result = None, socket_after = False, connect_attempts = attempts\<rparr>
            else
              \<lparr>legacy_result =
                 (case received io of Received_transcript text \<Rightarrow> Some text | _ \<Rightarrow> None),
               socket_after = True, connect_attempts = attempts\<rparr>))"

section \<open>Action dispatcher: \<open>_execute_action\<close>\<close>

text \<open>
  The process environment is an association list. The configured \<^verbatim>\<open>service_data\<close> is a
  mapping (\<open>Inl\<close>) or a string (\<open>Inr\<close>). For a string, \<open>json_loads\<close> is the outcome of the two
  statements \<^verbatim>\<open>service_data = json.loads(service_data)\<close> and
  \<^verbatim>\<open>payload.update(service_data)\<close> together: the mapping decoded and merged, or \<open>None\<close> when
  one of them raises (a string that is not JSON, or JSON that is not a mapping); both end
  in the same \<^verbatim>\<open>except\<close> clause. \<open>post\<close> is the outcome of \<^verbatim>\<open>requests.post\<close>: \<open>None\<close> when it
  raises, otherwise the value of \<^verbatim>\<open>response.ok\<close>. The method catches every exception, so it
  always returns; the outcome says which path was taken. \<open>truthy\<close> is Python's truth value
  of an optional string: \<^verbatim>\<open>None\<close> and the empty string are false.
\<close>

record 'd action_config =
  action :: "string option"
  entity_id :: "string option"
  service_data :: "'d + string"

record 'd request =
  url :: string
  bearer :: string
  entity :: "string option"
  data :: 'd

datatype 'd action_outcome =
    No_token
  | Invalid_action_format
  | Exception_logged
  | Posted "'d request" bool

definition truthy :: "string option \<Rightarrow> bool" where
  "truthy v \<longleftrightarrow> (case v of None \<Rightarrow> False | Some s \<Rightarrow> s \<noteq> [])"

fun split_once :: "char \<Rightarrow> string \<Rightarrow> string \<Rightarrow> (string \<times> string) option" where
  "split_once sep front [] = None"
| "split_once sep front (c # cs) =
     (if c = sep then Some (front, cs) else split_once sep (front @ [c]) cs)"

definition execute_action ::
  "(string \<times> string) list \<Rightarrow> 'd option \<Rightarrow> bool option \<Rightarrow>
   'd action_config \<Rightarrow> 'd action_outcome" where
  "execute_action environ json_loads post action_config =
     (let token = map_of environ ''SUPERVISOR_TOKEN'';
          token = (if \<not> truthy token then map_of environ ''HASSIO_TOKEN'' else token)
      in
      if \<not> truthy token then No_token
      else
        (case action action_config of
           None \<Rightarrow> Exception_logged
         | Some a \<Rightarrow>
             (case split_once (CHR ''.'') [] a of
                None \<Rightarrow> Invalid_action_format
              | Some (domain, service) \<Rightarrow>
                  (case (case service_data action_config of
                           Inl d \<Rightarrow> Some d
                         | Inr s \<Rightarrow> json_loads) of
                     None \<Rightarrow> Exception_logged
                   | Some d \<Rightarrow>
                       (let req = \<lparr>url = ''http://supervisor/core/api/services/'' @ domain @ ''/'' @ service,
                                   bearer = (case token of Some t \<Rightarrow> t | None \<Rightarrow> []),
                                   entity = (if truthy (entity_id action_config)
                                             then entity_id action_config else None),
                                   data = d\<rparr>
                        in case post of
                             None \<Rightarrow> Exception_logged
                           | Some ok \<Rightarrow> Posted req ok)))))"

section \<open>Segmenter: single steps and blocks of frames\<close>

lemma idle_init: "idle (AudioBuffer_init rate)"
  by (simp add: idle_def AudioBuffer_init_def)

lemma add_frame_speech:
  assumes "classify (min_energy_threshold s) x = Inr True"
  shows "add_frame s x =
     Inr (let r = (if is_speaking s then recorded_frames s else 0) + 1;
              b = buffer s @ [snd x]
          in if max_recording_frames s \<le> r
             then (Some (concat b), s\<lparr>buffer := [], is_speaking := False, silence_frames := 0, recorded_frames := 0\<rparr>)
             else (None, s\<lparr>buffer := b, is_speaking := True, silence_frames := 0, recorded_frames := r\<rparr>))"
  using assms by (simp add: add_frame_def reset_def Let_def)

lemma add_frame_nonspeech_speaking:
  assumes "classify (min_energy_threshold s) x = Inr False" "is_speaking s"
  shows "add_frame s x =
     Inr (let k = silence_frames s + 1; b = buffer s @ [snd x]
          in if max_silence_frames s \<le> k
             then (Some (concat b), s\<lparr>buffer := [], is_speaking := False, silence_frames := 0, recorded_frames := 0\<rparr>)
             else (None, s\<lparr>buffer := b, silence_frames := k\<rparr>))"
  using assms by (simp add: add_frame_def reset_def Let_def)

lemma add_frame_nonspeech_idle:
  assumes "classify (min_energy_threshold s) x = Inr False" "\<not> is_speaking s"
  shows "add_frame s x = Inr (None, s)"
  using assms by (simp add: add_frame_def)

lemma feed_append:
  "feed s (xs @ ys) =
     (case feed s xs of
        Inl e \<Rightarrow> Inl e
      | Inr (outs, s') \<Rightarrow>
          (case feed s' ys of
             Inl e \<Rightarrow> Inl e
           | Inr (outs', s'') \<Rightarrow> Inr (outs @ outs', s'')))"
  by (induction xs arbitrary: s) (auto split: sum.splits prod.splits)

lemma feed_idle_nonspeech:
  assumes "\<not> is_speaking s" "\<forall>x\<in>set xs. classify (min_energy_threshold s) x = Inr False"
  shows "feed s xs = Inr (replicate (length xs) None, s)"
  using assms by (induction xs) (simp_all add: add_frame_nonspeech_idle)

lemma feed_speech_block:
  assumes "\<forall>x\<in>set xs. classify (min_energy_threshold s) x = Inr True"
    and "xs \<noteq> []"
    and "(if is_speaking s then recorded_frames s else 0) + length xs < max_recording_frames s"
  shows "feed s xs =
     Inr (replicate (length xs) None,
          s\<lparr>buffer := buffer s @ map snd xs, is_speaking := True, silence_frames := 0,
            recorded_frames := (if is_speaking s then recorded_frames s else 0) + length xs\<rparr>)"
  using assms
proof (induction xs arbitrary: s)
  case Nil
  then show ?case by simp
next
  case (Cons x xs)
  let ?r = "(if is_speaking s then recorded_frames s else 0) + 1"
  let ?s1 = "s\<lparr>buffer := buffer s @ [snd x], is_speaking := True, silence_frames := 0, recorded_frames := ?r\<rparr>"
  have step: "add_frame s x = Inr (None, ?s1)"
    using Cons.prems by (simp add: add_frame_speech Let_def)
  show ?case
  proof (cases "xs = []")
    case True
    then show ?thesis using step by simp
  next
    case False
    have "feed ?s1 xs = Inr (replicate (length xs) None,
          ?s1\<lparr>buffer := buffer ?s1 @ map snd xs, is_speaking := True, silence_frames := 0,
            recorded_frames := (if is_speaking ?s1 then recorded_frames ?s1 else 0) + length xs\<rparr>)"
      using Cons.prems False by (intro Cons.IH) simp_all
    then show ?thesis using step by simp
  qed
qed

lemma feed_silence_block:
  assumes "\<forall>x\<in>set xs. classify (min_energy_threshold s) x = Inr False"
    and "is_speaking s"
    and "silence_frames s + length xs < max_silence_frames s"
  shows "feed s xs =
     Inr (replicate (length xs) None,
          s\<lparr>buffer := buffer s @ map snd xs, silence_frames := silence_frames s + length xs\<rparr>)"
  using assms
proof (induction xs arbitrary: s)
  case Nil
  then show ?case by simp
next
  case (Cons x xs)
  let ?s1 = "s\<lparr>buffer := buffer s @ [snd x], silence_frames := silence_frames s + 1\<rparr>"
  have step: "add_frame s x = Inr (None, ?s1)"
    using Cons.prems by (simp add: add_frame_nonspeech_speaking Let_def)
  have "feed ?s1 xs = Inr (replicate (length xs) None,
          ?s1\<lparr>buffer := buffer ?s1 @ map snd xs, silence_frames := silence_frames ?s1 + length xs\<rparr>)"
    using Cons.prems by (intro Cons.IH) simp_all
  then show ?case using step by simp
qed

lemma reset_idle: "idle s \<Longrightarrow> s\<lparr>buffer := [], is_speaking := False, silence_frames := 0, recorded_frames := 0\<rparr> = s"
  by (simp add: idle_def)

lemma feed_utterance_by_silence:
  assumes speech: "\<forall>x\<in>set sp. classify (min_energy_threshold s) x = Inr True"
    and silence: "\<forall>x\<in>set sil. classify (min_energy_threshold s) x = Inr False"
    and sp: "sp \<noteq> []" "(if is_speaking s then recorded_frames s else 0) + length sp < max_recording_frames s"
    and sil: "0 < max_silence_frames s" "length sil = max_silence_frames s"
  shows "feed s (sp @ sil) =
     Inr (replicate (length sp + length sil - 1) None @ [Some (concat (buffer s @ map snd (sp @ sil)))],
          s\<lparr>buffer := [], is_speaking := False, silence_frames := 0, recorded_frames := 0\<rparr>)"
proof -
  let ?s1 = "s\<lparr>buffer := buffer s @ map snd sp, is_speaking := True, silence_frames := 0,
            recorded_frames := (if is_speaking s then recorded_frames s else 0) + length sp\<rparr>"
  have f1: "feed s sp = Inr (replicate (length sp) None, ?s1)"
    using speech sp by (rule feed_speech_block)
  from sil obtain sil' x where sil_eq: "sil = sil' @ [x]"
    by (cases sil rule: rev_cases) auto
  let ?s2 = "?s1\<lparr>buffer := buffer ?s1 @ map snd sil', silence_frames := silence_frames ?s1 + length sil'\<rparr>"
  have f2: "feed ?s1 sil' = Inr (replicate (length sil') None, ?s2)"
    using silence sil sil_eq by (intro feed_silence_block) simp_all
  have f3: "add_frame ?s2 x = Inr (Some (concat (buffer ?s2 @ [snd x])),
        ?s2\<lparr>buffer := [], is_speaking := False, silence_frames := 0, recorded_frames := 0\<rparr>)"
    using silence sil sil_eq by (simp add: add_frame_nonspeech_speaking Let_def)
  have "feed s (sp @ sil' @ [x]) =
      Inr (replicate (length sp) None @ replicate (length sil') None @ [Some (concat (buffer ?s2 @ [snd x]))],
        ?s2\<lparr>buffer := [], is_speaking := False, silence_frames := 0, recorded_frames := 0\<rparr>)"
    by (simp only: feed_append f1 f2 f3 feed.simps sum.case prod.case append_Nil2)
  moreover have "replicate (length sp) None @ replicate (length sil') (None :: bytes option)
      = replicate (length sp + length sil - 1) None"
    using sil_eq by (simp add: replicate_add)
  ultimately show ?thesis using sil_eq by simp
qed

lemma feed_utterance_by_cap:
  assumes speech: "\<forall>x\<in>set sp. classify (min_energy_threshold s) x = Inr True"
    and len: "(if is_speaking s then recorded_frames s else 0) + length sp = max_recording_frames s"
      "sp \<noteq> []"
  shows "feed s sp =
     Inr (replicate (length sp - 1) None @ [Some (concat (buffer s @ map snd sp))],
          s\<lparr>buffer := [], is_speaking := False, silence_frames := 0, recorded_frames := 0\<rparr>)"
proof -
  from len obtain sp' x where sp_eq: "sp = sp' @ [x]"
    by (cases sp rule: rev_cases) auto
  show ?thesis
  proof (cases "sp' = []")
    case True
    then show ?thesis using speech len sp_eq by (simp add: add_frame_speech Let_def)
  next
    case False
    let ?s1 = "s\<lparr>buffer := buffer s @ map snd sp', is_speaking := True, silence_frames := 0,
            recorded_frames := (if is_speaking s then recorded_frames s else 0) + length sp'\<rparr>"
    have f1: "feed s sp' = Inr (replicate (length sp') None, ?s1)"
      using speech len sp_eq False by (intro feed_speech_block) simp_all
    have f2: "add_frame ?s1 x = Inr (Some (concat (buffer ?s1 @ [snd x])),
        ?s1\<lparr>buffer := [], is_speaking := False, silence_frames := 0, recorded_frames := 0\<rparr>)"
      using speech len sp_eq by (simp add: add_frame_speech Let_def)
    have "feed s (sp' @ [x]) = Inr (replicate (length sp') None @ [Some (concat (buffer ?s1 @ [snd x]))],
        ?s1\<lparr>buffer := [], is_speaking := False, silence_frames := 0, recorded_frames := 0\<rparr>)"
      by (simp only: feed_append f1 f2 feed.simps sum.case prod.case append_Nil2)
    then show ?thesis using sp_eq by simp
  qed
qed

lemma add_frame_same_config:
  assumes "add_frame s x = Inr (out, s')"
  shows "same_config s s'"
  using assms
  by (auto simp: add_frame_def same_config_def reset_def Let_def split: sum.splits if_splits)

lemma tracks_idle: "idle s \<Longrightarrow> tracks s []"
  by (simp add: idle_def tracks_def)

lemma add_frame_tracks:
  assumes tr: "tracks s cur"
    and step: "add_frame s x = Inr (out, s')"
  shows "(out = None \<longrightarrow> tracks s' (cur @ [x]) \<or> (cur = [] \<and> tracks s' [])) \<and>
         (\<forall>u. out = Some u \<longrightarrow>
            tracks s' [] \<and> u = concat (map snd (cur @ [x])) \<and>
            is_speech_frame (min_energy_threshold s) (hd (cur @ [x])) \<and>
            (is_speech_frame (min_energy_threshold s) x \<and> 0 < max_recording_frames s \<longrightarrow>
               length (filter (is_speech_frame (min_energy_threshold s)) (cur @ [x])) = max_recording_frames s) \<and>
            (\<not> is_speech_frame (min_energy_threshold s) x \<longrightarrow> Suc (max_silence_frames s) \<le> length (cur @ [x])))"
proof -
  from step have cl: "classify (min_energy_threshold s) x = Inr True \<or>
      classify (min_energy_threshold s) x = Inr False"
    by (auto simp: add_frame_def split: sum.splits)
  then show ?thesis
  proof
    assume sp: "classify (min_energy_threshold s) x = Inr True"
    then have isf: "is_speech_frame (min_energy_threshold s) x" by (simp add: is_speech_frame_def)
    show ?thesis
    proof (cases "cur = []")
      case True
      with tr have "\<not> is_speaking s" "buffer s = []" by (simp_all add: tracks_def)
      then show ?thesis using step sp isf True
        by (auto simp: add_frame_speech Let_def tracks_def is_speech_frame_def split: if_splits)
    next
      case False
      with tr have "is_speaking s" by (simp add: tracks_def)
      then show ?thesis using step sp isf False tr
        by (auto simp: add_frame_speech Let_def tracks_def is_speech_frame_def split: if_splits)
    qed
  next
    assume ns: "classify (min_energy_threshold s) x = Inr False"
    then have isf: "\<not> is_speech_frame (min_energy_threshold s) x" by (simp add: is_speech_frame_def)
    show ?thesis
    proof (cases "cur = []")
      case True
      with tr have "\<not> is_speaking s" by (simp add: tracks_def)
      then show ?thesis using step ns tr True
        by (simp add: add_frame_nonspeech_idle)
    next
      case False
      with tr have "is_speaking s" by (simp add: tracks_def)
      then show ?thesis using step ns isf False tr
        by (auto simp: add_frame_nonspeech_speaking Let_def tracks_def is_speech_frame_def split: if_splits)
    qed
  qed
qed

lemma speech_frame_nonempty:
  assumes "is_speech_frame t x" "0 < t"
  shows "snd x \<noteq> []"
proof
  assume "snd x = []"
  then have "classify t x \<noteq> Inr True"
    using assms(2) by (simp add: classify_def calculate_energy_def Let_def)
  then show False using assms(1) by (simp add: is_speech_frame_def)
qed

lemma feed_tracks:
  assumes "tracks s cur"
    and "feed s xs = Inr (outs, s')" "i < length xs" "outs ! i = Some u"
  shows "\<exists>seg. suffix seg (cur @ take (Suc i) xs) \<and> seg \<noteq> [] \<and> last seg = xs ! i \<and>
           u = concat (map snd seg) \<and>
           is_speech_frame (min_energy_threshold s) (hd seg) \<and>
           (is_speech_frame (min_energy_threshold s) (xs ! i) \<and> 0 < max_recording_frames s \<longrightarrow>
              length (filter (is_speech_frame (min_energy_threshold s)) seg) = max_recording_frames s) \<and>
           (\<not> is_speech_frame (min_energy_threshold s) (xs ! i) \<longrightarrow>
              Suc (max_silence_frames s) \<le> length seg)"
  using assms
proof (induction xs arbitrary: s cur outs i)
  case Nil
  then show ?case by simp
next
  case (Cons x xs)
  from Cons.prems(2) obtain out s1 outs1 where
    step: "add_frame s x = Inr (out, s1)" and rest: "feed s1 xs = Inr (outs1, s')"
    and outs: "outs = out # outs1"
    by (auto split: sum.splits prod.splits)
  note inv = add_frame_tracks[OF Cons.prems(1) step]
  have cfg: "same_config s s1" using step by (rule add_frame_same_config)
  show ?case
  proof (cases i)
    case 0
    with Cons.prems(4) outs have "out = Some u" by simp
    with inv 0 show ?thesis
      by (intro exI[of _ "cur @ [x]"]) simp
  next
    case (Suc j)
    with Cons.prems(3,4) outs have j: "j < length xs" "outs1 ! j = Some u" by simp_all
    from inv obtain cur1 where cur1: "tracks s1 cur1" "cur1 = [] \<or> cur1 = cur @ [x]"
      by (cases out) auto
    from Cons.IH[OF cur1(1) rest j]
    obtain seg where seg: "suffix seg (cur1 @ take (Suc j) xs)" "seg \<noteq> []" "last seg = xs ! j"
      "u = concat (map snd seg)"
      "is_speech_frame (min_energy_threshold s1) (hd seg)"
      "is_speech_frame (min_energy_threshold s1) (xs ! j) \<and> 0 < max_recording_frames s1 \<longrightarrow>
         length (filter (is_speech_frame (min_energy_threshold s1)) seg) = max_recording_frames s1"
      "\<not> is_speech_frame (min_energy_threshold s1) (xs ! j) \<longrightarrow> Suc (max_silence_frames s1) \<le> length seg"
      by blast
    have "suffix seg (cur @ take (Suc i) (x # xs))"
    proof -
      have "suffix (cur1 @ take (Suc j) xs) ((cur @ [x]) @ take (Suc j) xs)"
        using cur1(2) by (auto simp: suffix_def)
      with seg(1) have "suffix seg ((cur @ [x]) @ take (Suc j) xs)" by (rule suffix_order.trans)
      then show ?thesis using Suc by simp
    qed
    with seg cfg Suc show ?thesis
      by (intro exI[of _ seg]) (simp add: same_config_def)
  qed
qed

lemma samples_h_uniform:
  "samples_h (concat (replicate n [lo, hi])) = Inr (replicate n (sample_h lo hi))"
  by (induction n) simp_all

lemma sum_squares_replicate: "sum_squares (replicate n v) = int n * (v * v)"
  by (induction n) (simp_all add: sum_squares_def algebra_simps)

lemma low_energy_iff:
  assumes "ss \<noteq> []" "0 < t"
  shows "sqrt (real_of_int (sum_squares ss) / real (length ss)) < real_of_int t
         \<longleftrightarrow> sum_squares ss < t * t * int (length ss)"
proof -
  let ?n = "real (length ss)"
  have n: "0 < ?n" using assms(1) by simp
  have t: "sqrt (real_of_int (t * t)) = real_of_int t"
    using assms(2) by (simp add: real_sqrt_mult)
  have "sqrt (real_of_int (sum_squares ss) / ?n) < real_of_int t
        \<longleftrightarrow> real_of_int (sum_squares ss) / ?n < real_of_int (t * t)"
    using real_sqrt_less_iff[of "real_of_int (sum_squares ss) / ?n" "real_of_int (t * t)"] t by simp
  also have "\<dots> \<longleftrightarrow> real_of_int (sum_squares ss) < real_of_int (t * t) * ?n"
    using n by (simp add: pos_divide_less_eq)
  also have "\<dots> \<longleftrightarrow> real_of_int (sum_squares ss) < real_of_int (t * t * int (length ss))"
    by simp
  also have "\<dots> \<longleftrightarrow> sum_squares ss < t * t * int (length ss)"
    by (rule of_int_less_iff)
  finally show ?thesis .
qed

lemma classify_uniform:
  assumes "0 < n" "0 < t"
  shows "classify t (v, concat (replicate n [lo, hi])) =
     Inr (v \<noteq> Vad_returns False \<and> t * t \<le> sample_h lo hi * sample_h lo hi)"
proof -
  let ?ss = "replicate n (sample_h lo hi)"
  have ne: "?ss \<noteq> []" using assms(1) by simp
  have "sum_squares ?ss < t * t * int (length ?ss) \<longleftrightarrow> sample_h lo hi * sample_h lo hi < t * t"
    using assms(1) by (simp add: sum_squares_replicate mult.commute)
  then have low: "sqrt (real_of_int (sum_squares ?ss) / real (length ?ss)) < real_of_int t
      \<longleftrightarrow> sample_h lo hi * sample_h lo hi < t * t"
    using low_energy_iff[OF ne assms(2)] by simp
  have en: "calculate_energy (concat (replicate n [lo, hi])) =
      Inr (sqrt (real_of_int (sum_squares ?ss) / real (length ?ss)))"
    using assms(1) by (simp add: calculate_energy_def samples_h_uniform)
  show ?thesis
    using low by (cases v) (auto simp: classify_def en simp del: length_replicate)
qed

lemma feed_classified:
  assumes "\<forall>x\<in>set xs. \<exists>b. classify (min_energy_threshold s) x = Inr b"
  shows "\<exists>outs s'. feed s xs = Inr (outs, s') \<and> length outs = length xs"
  using assms
proof (induction xs arbitrary: s)
  case Nil
  then show ?case by simp
next
  case (Cons x xs)
  then obtain b where "classify (min_energy_threshold s) x = Inr b" by auto
  then have "\<exists>p. add_frame s x = Inr p"
    by (simp add: add_frame_def)
  then obtain out s1 where step: "add_frame s x = Inr (out, s1)"
    by force
  then have "min_energy_threshold s1 = min_energy_threshold s"
    using add_frame_same_config by (auto simp: same_config_def)
  with Cons.prems have "\<forall>x\<in>set xs. \<exists>b. classify (min_energy_threshold s1) x = Inr b" by simp
  from Cons.IH[OF this] step show ?case by auto
qed

lemma init_fields:
  "min_energy_threshold (AudioBuffer_init r) = 500"
  "max_silence_frames (AudioBuffer_init r) = 30"
  "max_recording_frames (AudioBuffer_init r) = 1000"
  "is_speaking (AudioBuffer_init r) = False"
  "buffer (AudioBuffer_init r) = []"
  "recorded_frames (AudioBuffer_init r) = 0"
  "silence_frames (AudioBuffer_init r) = 0"
  by (simp_all add: AudioBuffer_init_def)

lemma classify_loud:
  "classify 500 (Vad_returns True, concat (replicate 480 [0xF4, 0x01])) = Inr True"
  by (simp add: classify_uniform sample_h_def)

lemma classify_silent:
  "classify 500 (Vad_returns False, concat (replicate 480 [0, 0])) = Inr False"
  by (simp add: classify_uniform sample_h_def)

lemma length_concat_uniform:
  assumes "\<forall>x\<in>set ys. length (snd x) = fs"
  shows "length (concat (map snd ys)) = length ys * fs"
  using assms by (induction ys) simp_all

lemma feed_Inr_classified:
  assumes "feed s xs = Inr (outs, s')"
  shows "\<forall>x\<in>set xs. \<exists>b. classify (min_energy_threshold s) x = Inr b"
  using assms
proof (induction xs arbitrary: s outs)
  case Nil
  then show ?case by simp
next
  case (Cons x xs)
  from Cons.prems obtain out s1 outs1 where
    step: "add_frame s x = Inr (out, s1)" and rest: "feed s1 xs = Inr (outs1, s')"
    by (auto split: sum.splits prod.splits)
  from step have "\<exists>b. classify (min_energy_threshold s) x = Inr b"
    by (auto simp: add_frame_def split: sum.splits)
  moreover have "min_energy_threshold s1 = min_energy_threshold s"
    using add_frame_same_config[OF step] by (simp add: same_config_def)
  ultimately show ?case using Cons.IH[OF rest] by simp
qed

lemma energy_uniform:
  assumes "0 < n"
  shows "calculate_energy (concat (replicate n [lo, hi])) = Inr (real_of_int \<bar>sample_h lo hi\<bar>)"
proof -
  let ?v = "sample_h lo hi"
  have "real_of_int (int n * (?v * ?v)) / real n = real_of_int ?v * real_of_int ?v"
    using assms by simp
  then have "sqrt (real_of_int (int n * (?v * ?v)) / real n) = \<bar>real_of_int ?v\<bar>"
    by (simp only: real_sqrt_abs2)
  then show ?thesis
    using assms by (simp add: calculate_energy_def samples_h_uniform sum_squares_replicate)
qed

lemma feed_short_utterance_example:
  "feed (AudioBuffer_init 16000)
     (replicate 10 (Vad_returns True, concat (replicate 480 [0xF4, 0x01])) @
      replicate 30 (Vad_returns False, concat (replicate 480 [0, 0]))) =
   Inr (replicate 39 None @
        [Some (concat (replicate 10 (concat (replicate 480 [0xF4, 0x01])) @
                       replicate 30 (concat (replicate 480 [0, 0]))))],
        AudioBuffer_init 16000)"
  using feed_utterance_by_silence
    [of "replicate 10 (Vad_returns True, concat (replicate 480 [0xF4, 0x01]))"
        "AudioBuffer_init 16000"
        "replicate 30 (Vad_returns False, concat (replicate 480 [0, 0]))"]
    reset_idle[OF idle_init, of 16000]
  by (simp add: init_fields classify_loud classify_silent)

lemma feed_interleaved_example:
  "feed (AudioBuffer_init 16000)
     (replicate 600 (Vad_returns True, concat (replicate 480 [0xF4, 0x01])) @
      replicate 5 (Vad_returns False, concat (replicate 480 [0, 0])) @
      replicate 400 (Vad_returns True, concat (replicate 480 [0xF4, 0x01]))) =
   Inr (replicate 1004 None @
        [Some (concat (replicate 600 (concat (replicate 480 [0xF4, 0x01])) @
                       replicate 5 (concat (replicate 480 [0, 0])) @
                       replicate 400 (concat (replicate 480 [0xF4, 0x01]))))],
        AudioBuffer_init 16000)"
proof -
  let ?s = "AudioBuffer_init 16000"
  let ?loud = "concat (replicate 480 [0xF4, 0x01 :: byte])"
  let ?zero = "concat (replicate 480 [0, 0 :: byte])"
  let ?a = "replicate 600 (Vad_returns True, ?loud)"
  let ?b = "replicate 5 (Vad_returns False, ?zero)"
  let ?c = "replicate 400 (Vad_returns True, ?loud)"
  let ?s1 = "?s\<lparr>buffer := replicate 600 ?loud, is_speaking := True, silence_frames := 0,
      recorded_frames := 600\<rparr>"
  let ?s2 = "?s\<lparr>buffer := replicate 600 ?loud @ replicate 5 ?zero, is_speaking := True,
      silence_frames := 5, recorded_frames := 600\<rparr>"
  have f1: "feed ?s ?a = Inr (replicate 600 None, ?s1)"
    using feed_speech_block[of ?a ?s] by (simp add: init_fields classify_loud)
  have f2: "feed ?s1 ?b = Inr (replicate 5 None, ?s2)"
    using feed_silence_block[of ?b ?s1] by (simp add: init_fields classify_silent)
  have f3: "feed ?s2 ?c = Inr (replicate 399 None @
      [Some (concat (replicate 600 ?loud @ replicate 5 ?zero @ replicate 400 ?loud))], ?s)"
    using feed_utterance_by_cap[of ?c ?s2]
    by (simp add: init_fields classify_loud)
  have "feed ?s (?a @ ?b @ ?c) = Inr (replicate 600 None @ replicate 5 None @ replicate 399 None @
      [Some (concat (replicate 600 ?loud @ replicate 5 ?zero @ replicate 400 ?loud))], ?s)"
    by (simp only: feed_append[of ?s ?a "?b @ ?c"] feed_append[of ?s1 ?b ?c] f1 f2 f3
        sum.case prod.case)
  moreover have "replicate 600 None @ replicate 5 None @ replicate 399 (None :: bytes option)
      = replicate 1004 None"
    by (simp add: replicate_add[symmetric] del: replicate_add)
  ultimately show ?thesis by simp
qed

section \<open>Segmenter: the claims\<close>

text \<open>
  Claim C1, as amended. Starting from the idle state, feed any number of non-speech frames,
  then a run of speech frames shorter than \<open>max_recording_frames\<close>, then at least
  \<open>max_silence_frames\<close> non-speech frames. Exactly one call of \<^verbatim>\<open>add_frame\<close> returns an
  utterance: the call on the \<open>max_silence_frames\<close>-th non-speech frame after the speech
  run. The utterance is the concatenation of the speech frames and of these first
  \<open>max_silence_frames\<close> non-speech frames, so its length is the sum of their lengths.
  The segmenter is idle again after that call, and the remaining non-speech frames are
  dropped without changing the state.
\<close>

theorem C1_silence_run_ends_utterance:
  assumes "idle s"
    and "\<forall>x\<in>set pre. classify (min_energy_threshold s) x = Inr False"
    and "\<forall>x\<in>set sp. classify (min_energy_threshold s) x = Inr True"
    and "\<forall>x\<in>set sil. classify (min_energy_threshold s) x = Inr False"
    and "sp \<noteq> []" and "length sp < max_recording_frames s"
    and "0 < max_silence_frames s" and "max_silence_frames s \<le> length sil"
  shows "feed s (pre @ sp @ sil) =
           Inr (replicate (length pre + length sp + max_silence_frames s - 1) None @
                [Some (concat (map snd (sp @ take (max_silence_frames s) sil)))] @
                replicate (length sil - max_silence_frames s) None, s) \<and>
         length (concat (map snd (sp @ take (max_silence_frames s) sil))) =
           (\<Sum>x\<leftarrow>sp @ take (max_silence_frames s) sil. length (snd x)) \<and>
         idle s"
proof -
  let ?m = "max_silence_frames s"
  have ns: "\<not> is_speaking s" and buf: "buffer s = []" using assms(1) by (simp_all add: idle_def)
  have f0: "feed s pre = Inr (replicate (length pre) None, s)"
    using ns assms(2) by (rule feed_idle_nonspeech)
  have sil1: "\<forall>x\<in>set (take ?m sil). classify (min_energy_threshold s) x = Inr False"
    using assms(4) by (auto dest: in_set_takeD)
  have len1: "length (take ?m sil) = ?m" using assms(8) by simp
  have f1: "feed s (sp @ take ?m sil) =
      Inr (replicate (length sp + ?m - 1) None @ [Some (concat (map snd (sp @ take ?m sil)))], s)"
    using feed_utterance_by_silence[OF assms(3) sil1 assms(5) _ assms(7) len1]
      ns buf assms(6) reset_idle[OF assms(1)] len1 by simp
  have f2: "feed s (drop ?m sil) = Inr (replicate (length sil - ?m) None, s)"
    using feed_idle_nonspeech[of s "drop ?m sil"] ns assms(4) by (auto dest: in_set_dropD)
  have g: "feed s ((sp @ take ?m sil) @ drop ?m sil) =
      Inr ((replicate (length sp + ?m - 1) None @ [Some (concat (map snd (sp @ take ?m sil)))]) @
           replicate (length sil - ?m) None, s)"
    by (simp only: feed_append[of s "sp @ take ?m sil" "drop ?m sil"] f1 f2 sum.case prod.case)
  have "feed s (pre @ ((sp @ take ?m sil) @ drop ?m sil)) =
      Inr (replicate (length pre) None @
           (replicate (length sp + ?m - 1) None @ [Some (concat (map snd (sp @ take ?m sil)))]) @
           replicate (length sil - ?m) None, s)"
    by (simp only: feed_append[of s pre "(sp @ take ?m sil) @ drop ?m sil"] f0 g sum.case prod.case)
  moreover have "replicate (length pre) None @ replicate (length sp + ?m - 1) (None :: bytes option)
      = replicate (length pre + length sp + ?m - 1) None"
    using assms(5) by (cases sp) (simp_all add: replicate_add[symmetric] del: replicate_add)
  ultimately have "feed s (pre @ sp @ sil) =
           Inr (replicate (length pre + length sp + ?m - 1) None @
                [Some (concat (map snd (sp @ take ?m sil)))] @
                replicate (length sil - ?m) None, s)"
    by simp
  moreover have "length (concat (map snd (sp @ take ?m sil))) =
           (\<Sum>x\<leftarrow>sp @ take ?m sil. length (snd x))"
    by (simp add: length_concat comp_def)
  ultimately show ?thesis using assms(1) by blast
qed

text \<open>
  The scenario of the specification: 30 ms frames at 16 kHz (960 bytes), ten speech frames
  of amplitude 500, then thirty silent frames.
\<close>

theorem C1_witness:
  "feed (AudioBuffer_init 16000)
     (replicate 10 (Vad_returns True, concat (replicate 480 [0xF4, 0x01])) @
      replicate 30 (Vad_returns False, concat (replicate 480 [0, 0]))) =
   Inr (replicate 39 None @
        [Some (concat (replicate 10 (concat (replicate 480 [0xF4, 0x01])) @
                       replicate 30 (concat (replicate 480 [0, 0]))))],
        AudioBuffer_init 16000)"
  using C1_silence_run_ends_utterance
    [of "AudioBuffer_init 16000" "[]"
        "replicate 10 (Vad_returns True, concat (replicate 480 [0xF4, 0x01]))"
        "replicate 30 (Vad_returns False, concat (replicate 480 [0, 0]))"]
  by (simp add: idle_init init_fields classify_loud classify_silent)

text \<open>
  Claim C1 as stated fails when the speech run reaches the recording cap: after 1000 speech
  frames the utterance is forced out on frame 1000, and the thirty non-speech frames that
  follow reach the idle segmenter. No utterance is returned on the frame that completes the
  silence run, and the one utterance holds 1000 frames, not 1030.
\<close>

theorem C1_counterexample:
  "feed (AudioBuffer_init 16000)
     (replicate 1000 (Vad_returns True, concat (replicate 480 [0xF4, 0x01])) @
      replicate 30 (Vad_returns False, concat (replicate 480 [0, 0]))) =
   Inr (replicate 999 None @
        [Some (concat (replicate 1000 (concat (replicate 480 [0xF4, 0x01]))))] @
        replicate 30 None,
        AudioBuffer_init 16000)"
proof -
  let ?s = "AudioBuffer_init 16000"
  let ?sp = "replicate 1000 (Vad_returns True, concat (replicate 480 [0xF4, 0x01 :: byte]))"
  let ?sil = "replicate 30 (Vad_returns False, concat (replicate 480 [0, 0 :: byte]))"
  have f1: "feed ?s ?sp =
      Inr (replicate 999 None @ [Some (concat (replicate 1000 (concat (replicate 480 [0xF4, 0x01]))))], ?s)"
    using feed_utterance_by_cap[of ?sp ?s] reset_idle[OF idle_init, of 16000]
    by (simp add: init_fields classify_loud)
  have f2: "feed ?s ?sil = Inr (replicate 30 None, ?s)"
    using feed_idle_nonspeech[of ?s ?sil] by (simp add: init_fields classify_silent)
  show ?thesis
    by (simp only: feed_append[of ?s ?sp ?sil] f1 f2 sum.case prod.case append_assoc)
qed

text \<open>
  Claim C2. From the idle state, after any number of non-speech frames, feed a run of more
  than \<open>max_recording_frames\<close> speech frames. The calls on the first
  \<open>max_recording_frames - 1\<close> speech frames return \<open>None\<close>; the call on speech frame number
  \<open>max_recording_frames\<close> returns the concatenation of exactly these
  \<open>max_recording_frames\<close> frames, with no non-speech frame needed, and leaves the segmenter
  reset. With frames of \<open>fs\<close> bytes the utterance has \<open>max_recording_frames * fs\<close> bytes.
  The frames after the cap are processed from the reset state, and the feed as a whole
  returns a value.
\<close>

theorem C2_forced_cutoff_at_cap:
  assumes "idle s"
    and "\<forall>x\<in>set pre. classify (min_energy_threshold s) x = Inr False"
    and "\<forall>x\<in>set xs. classify (min_energy_threshold s) x = Inr True"
    and "0 < max_recording_frames s" and "max_recording_frames s < length xs"
  shows "feed s (pre @ take (max_recording_frames s) xs) =
           Inr (replicate (length pre + max_recording_frames s - 1) None @
                [Some (concat (map snd (take (max_recording_frames s) xs)))], s) \<and>
         idle s \<and>
         (\<exists>outs' s'. feed s (drop (max_recording_frames s) xs) = Inr (outs', s') \<and>
            feed s (pre @ xs) =
              Inr (replicate (length pre + max_recording_frames s - 1) None @
                   [Some (concat (map snd (take (max_recording_frames s) xs)))] @ outs', s')) \<and>
         ((\<forall>x\<in>set xs. length (snd x) = fs) \<longrightarrow>
            length (concat (map snd (take (max_recording_frames s) xs))) =
              max_recording_frames s * fs)"
proof -
  let ?c = "max_recording_frames s"
  let ?u = "concat (map snd (take ?c xs))"
  have ns: "\<not> is_speaking s" and buf: "buffer s = []" using assms(1) by (simp_all add: idle_def)
  have f0: "feed s pre = Inr (replicate (length pre) None, s)"
    using ns assms(2) by (rule feed_idle_nonspeech)
  have sp1: "\<forall>x\<in>set (take ?c xs). classify (min_energy_threshold s) x = Inr True"
    using assms(3) by (auto dest: in_set_takeD)
  have len1: "length (take ?c xs) = ?c" using assms(5) by simp
  have ne1: "take ?c xs \<noteq> []" using assms(4,5) by (cases xs) auto
  have f1: "feed s (take ?c xs) = Inr (replicate (?c - 1) None @ [Some ?u], s)"
    using feed_utterance_by_cap[OF sp1 _ ne1] ns buf len1 reset_idle[OF assms(1)] by simp
  have rep: "replicate (length pre) None @ replicate (?c - 1) (None :: bytes option)
      = replicate (length pre + ?c - 1) None"
    using assms(4) by (cases ?c) (simp_all add: replicate_add[symmetric] del: replicate_add)
  have g1: "feed s (pre @ take ?c xs) = Inr (replicate (length pre + ?c - 1) None @ [Some ?u], s)"
    using feed_append[of s pre "take ?c xs"] f0 f1 rep by simp
  have "\<forall>x\<in>set (drop ?c xs). \<exists>b. classify (min_energy_threshold s) x = Inr b"
    using assms(3) by (auto dest: in_set_dropD)
  then obtain outs' s' where f2: "feed s (drop ?c xs) = Inr (outs', s')"
    using feed_classified by blast
  have "feed s ((pre @ take ?c xs) @ drop ?c xs) =
      Inr ((replicate (length pre + ?c - 1) None @ [Some ?u]) @ outs', s')"
    by (simp only: feed_append[of s "pre @ take ?c xs" "drop ?c xs"] g1 f2 sum.case prod.case)
  then have g2: "feed s (pre @ xs) = Inr (replicate (length pre + ?c - 1) None @ [Some ?u] @ outs', s')"
    by simp
  have g3: "(\<forall>x\<in>set xs. length (snd x) = fs) \<longrightarrow> length ?u = ?c * fs"
  proof
    assume "\<forall>x\<in>set xs. length (snd x) = fs"
    then have "\<forall>x\<in>set (take ?c xs). length (snd x) = fs" by (auto dest: in_set_takeD)
    from length_concat_uniform[OF this] len1 show "length ?u = ?c * fs" by simp
  qed
  from g1 assms(1) f2 g2 g3 show ?thesis by blast
qed

theorem C2_witness:
  "feed (AudioBuffer_init 16000)
     (replicate 1000 (Vad_returns True, concat (replicate 480 [0xF4, 0x01]))) =
   Inr (replicate 999 None @
        [Some (concat (replicate 1000 (concat (replicate 480 [0xF4, 0x01]))))],
        AudioBuffer_init 16000) \<and>
   length (concat (replicate 1000 (concat (replicate 480 [0xF4, 0x01 :: byte])))) = 1000 * 960"
  using C2_forced_cutoff_at_cap
    [of "AudioBuffer_init 16000" "[]"
        "replicate 1001 (Vad_returns True, concat (replicate 480 [0xF4, 0x01]))" 960]
  by (simp add: idle_init init_fields classify_loud length_concat sum_list_replicate)

text \<open>
  Claim C6. A frame whose RMS energy is below \<open>min_energy_threshold\<close> is finally classified
  as non-speech whatever the detector said (speech, non-speech, or an exception, which the
  code treats as speech). When the segmenter is not speaking, \<^verbatim>\<open>add_frame\<close> on such a frame
  returns \<open>None\<close> and leaves the state as it was.
\<close>

theorem C6_energy_gate:
  assumes "calculate_energy frame = Inr energy"
    and "energy < real_of_int (min_energy_threshold s)"
  shows "classify (min_energy_threshold s) (v, frame) = Inr False \<and>
         (\<not> is_speaking s \<longrightarrow> add_frame s (v, frame) = Inr (None, s))"
proof -
  have "classify (min_energy_threshold s) (v, frame) = Inr False"
    using assms by (cases v) (simp_all add: classify_def)
  then show ?thesis by (simp add: add_frame_nonspeech_idle)
qed

theorem C6_witness:
  "calculate_energy (concat (replicate 480 [0xF3, 0x01])) = Inr 499 \<and>
   classify 500 (Vad_returns True, concat (replicate 480 [0xF3, 0x01])) = Inr False \<and>
   add_frame (AudioBuffer_init 16000) (Vad_returns True, concat (replicate 480 [0xF3, 0x01])) =
     Inr (None, AudioBuffer_init 16000)"
proof -
  have e: "calculate_energy (concat (replicate 480 [0xF3, 0x01])) = Inr 499"
    by (simp add: energy_uniform sample_h_def)
  show ?thesis
    using C6_energy_gate[of "concat (replicate 480 [0xF3, 0x01])" 499 "AudioBuffer_init 16000"
        "Vad_returns True"] e
    by (simp add: init_fields)
qed

text \<open>
  Claim C8. Feed any frames to a segmenter that starts idle, with a positive energy
  threshold. Whatever \<^verbatim>\<open>add_frame\<close> returns is a non-empty byte string. When it is returned
  on a frame finally classified as non-speech (end of speech by silence), it is the
  concatenation of a run of at least \<open>1 + max_silence_frames\<close> consecutive frames ending
  with the current one; with frames of \<open>fs\<close> bytes it has at least
  \<open>(1 + max_silence_frames) * fs\<close> bytes.
\<close>

theorem C8_utterance_not_empty:
  assumes "idle s" and "0 < min_energy_threshold s"
    and "feed s xs = Inr (outs, s')" and "i < length xs" and "outs ! i = Some u"
  shows "u \<noteq> [] \<and>
         (classify (min_energy_threshold s) (xs ! i) = Inr False \<longrightarrow>
            (\<exists>seg. suffix seg (take (Suc i) xs) \<and> u = concat (map snd seg) \<and>
               1 + max_silence_frames s \<le> length seg \<and>
               ((\<forall>x\<in>set xs. length (snd x) = fs) \<longrightarrow>
                  (1 + max_silence_frames s) * fs \<le> length u)))"
proof -
  let ?t = "min_energy_threshold s"
  from feed_tracks[OF tracks_idle[OF assms(1)] assms(3,4,5)]
  obtain seg where seg: "suffix seg (take (Suc i) xs)" "seg \<noteq> []" "u = concat (map snd seg)"
    "is_speech_frame ?t (hd seg)"
    "\<not> is_speech_frame ?t (xs ! i) \<longrightarrow> Suc (max_silence_frames s) \<le> length seg"
    by auto
  have "snd (hd seg) \<noteq> []" using seg(4) assms(2) by (rule speech_frame_nonempty)
  then have ne: "u \<noteq> []" using seg(2,3) by (cases seg) auto
  have "\<exists>seg. suffix seg (take (Suc i) xs) \<and> u = concat (map snd seg) \<and>
               1 + max_silence_frames s \<le> length seg \<and>
               ((\<forall>x\<in>set xs. length (snd x) = fs) \<longrightarrow>
                  (1 + max_silence_frames s) * fs \<le> length u)"
    if ns: "classify ?t (xs ! i) = Inr False"
  proof -
    from ns have "\<not> is_speech_frame ?t (xs ! i)" by (simp add: is_speech_frame_def)
    with seg(5) have len: "1 + max_silence_frames s \<le> length seg" by simp
    have "(1 + max_silence_frames s) * fs \<le> length u" if uni: "\<forall>x\<in>set xs. length (snd x) = fs"
    proof -
      have "set seg \<subseteq> set xs" using seg(1) by (meson set_mono_suffix set_take_subset subset_trans)
      with uni have "\<forall>x\<in>set seg. length (snd x) = fs" by auto
      from length_concat_uniform[OF this] seg(3) have "length u = length seg * fs" by simp
      moreover have "(1 + max_silence_frames s) * fs \<le> length seg * fs"
        using len by (rule mult_le_mono1)
      ultimately show ?thesis by simp
    qed
    with seg(1,3) len show ?thesis by blast
  qed
  with ne show ?thesis by blast
qed

theorem C8_witness:
  "feed (AudioBuffer_init 16000)
     (replicate 10 (Vad_returns True, concat (replicate 480 [0xF4, 0x01])) @
      replicate 30 (Vad_returns False, concat (replicate 480 [0, 0]))) =
   Inr (replicate 39 None @
        [Some (concat (replicate 10 (concat (replicate 480 [0xF4, 0x01])) @
                       replicate 30 (concat (replicate 480 [0, 0]))))],
        AudioBuffer_init 16000) \<and>
   concat (replicate 10 (concat (replicate 480 [0xF4, 0x01 :: byte])) @
           replicate 30 (concat (replicate 480 [0, 0]))) \<noteq> [] \<and>
   (1 + 30) * 960 \<le>
     length (concat (replicate 10 (concat (replicate 480 [0xF4, 0x01 :: byte])) @
                     replicate 30 (concat (replicate 480 [0, 0]))))"
  using C8_utterance_not_empty
    [of "AudioBuffer_init 16000"
        "replicate 10 (Vad_returns True, concat (replicate 480 [0xF4, 0x01])) @
         replicate 30 (Vad_returns False, concat (replicate 480 [0, 0]))"
        "replicate 39 None @
         [Some (concat (replicate 10 (concat (replicate 480 [0xF4, 0x01])) @
                        replicate 30 (concat (replicate 480 [0, 0]))))]"
        "AudioBuffer_init 16000" 39
        "concat (replicate 10 (concat (replicate 480 [0xF4, 0x01])) @
                 replicate 30 (concat (replicate 480 [0, 0])))"
        960]
    feed_short_utterance_example
  by (simp add: idle_init init_fields classify_silent nth_append length_concat sum_list_replicate)

text \<open>
  Claim C9. Feed frames of \<open>fs\<close> bytes to a segmenter that starts idle, with a positive
  recording cap. When \<^verbatim>\<open>add_frame\<close> returns an utterance on a frame finally classified as
  speech (forced cutoff), the utterance is the concatenation of a run of consecutive
  frames ending with the current one, of which exactly \<open>max_recording_frames\<close> are speech
  frames: the counter counted these and none of the buffered non-speech frames. Its
  length is \<open>(max_recording_frames + k) * fs\<close> for the \<open>k\<close> non-speech frames in the run:
  at least \<open>max_recording_frames * fs\<close>, and more when \<open>k > 0\<close>.
\<close>

theorem C9_cutoff_counts_speech_only:
  assumes "idle s" and "0 < max_recording_frames s"
    and "feed s xs = Inr (outs, s')" and "i < length xs" and "outs ! i = Some u"
    and "classify (min_energy_threshold s) (xs ! i) = Inr True"
    and "\<forall>x\<in>set xs. length (snd x) = fs"
  shows "\<exists>seg. suffix seg (take (Suc i) xs) \<and> u = concat (map snd seg) \<and>
           length (filter (\<lambda>x. classify (min_energy_threshold s) x = Inr True) seg) =
             max_recording_frames s \<and>
           length u =
             (max_recording_frames s +
              length (filter (\<lambda>x. classify (min_energy_threshold s) x = Inr False) seg)) * fs \<and>
           max_recording_frames s * fs \<le> length u \<and>
           (0 < fs \<and> (\<exists>x\<in>set seg. classify (min_energy_threshold s) x = Inr False) \<longrightarrow>
              max_recording_frames s * fs < length u)"
proof -
  let ?t = "min_energy_threshold s"
  let ?c = "max_recording_frames s"
  let ?sp = "\<lambda>x. classify ?t x = Inr True"
  let ?ns = "\<lambda>x. classify ?t x = Inr False"
  have sp_eq: "is_speech_frame ?t = ?sp" by (simp add: is_speech_frame_def fun_eq_iff)
  from feed_tracks[OF tracks_idle[OF assms(1)] assms(3,4,5)] assms(2,6)
  obtain seg where seg: "suffix seg (take (Suc i) xs)" "u = concat (map snd seg)"
    "length (filter ?sp seg) = ?c"
    by (auto simp: sp_eq)
  have sub: "set seg \<subseteq> set xs"
    using seg(1) by (meson set_mono_suffix set_take_subset subset_trans)
  have cls: "\<forall>x\<in>set seg. \<exists>b. classify ?t x = Inr b"
    using feed_Inr_classified[OF assms(3)] sub by blast
  have "filter (\<lambda>x. \<not> ?sp x) seg = filter ?ns seg"
    using cls by (intro filter_cong) auto
  then have split: "length seg = ?c + length (filter ?ns seg)"
    using sum_length_filter_compl[of ?sp seg] seg(3) by simp
  have "\<forall>x\<in>set seg. length (snd x) = fs" using sub assms(7) by auto
  from length_concat_uniform[OF this] seg(2) have lu: "length u = length seg * fs" by simp
  have l1: "length u = (?c + length (filter ?ns seg)) * fs" using lu split by simp
  have l2: "?c * fs \<le> length u" using l1 by (simp add: add_mult_distrib)
  have l3: "?c * fs < length u" if "0 < fs" "\<exists>x\<in>set seg. ?ns x"
  proof -
    from that(2) have "filter ?ns seg \<noteq> []" by (simp add: filter_empty_conv)
    then have "0 < length (filter ?ns seg)" by simp
    with that(1) l1 show ?thesis by (simp add: add_mult_distrib)
  qed
  from seg l1 l2 l3 show ?thesis by blast
qed

theorem C9_witness:
  "feed (AudioBuffer_init 16000)
     (replicate 600 (Vad_returns True, concat (replicate 480 [0xF4, 0x01])) @
      replicate 5 (Vad_returns False, concat (replicate 480 [0, 0])) @
      replicate 400 (Vad_returns True, concat (replicate 480 [0xF4, 0x01]))) =
   Inr (replicate 1004 None @
        [Some (concat (replicate 600 (concat (replicate 480 [0xF4, 0x01])) @
                       replicate 5 (concat (replicate 480 [0, 0])) @
                       replicate 400 (concat (replicate 480 [0xF4, 0x01]))))],
        AudioBuffer_init 16000) \<and>
   1000 * 960 \<le>
     length (concat (replicate 600 (concat (replicate 480 [0xF4, 0x01 :: byte])) @
                     replicate 5 (concat (replicate 480 [0, 0])) @
                     replicate 400 (concat (replicate 480 [0xF4, 0x01]))))"
  using C9_cutoff_counts_speech_only
    [of "AudioBuffer_init 16000"
        "replicate 600 (Vad_returns True, concat (replicate 480 [0xF4, 0x01])) @
         replicate 5 (Vad_returns False, concat (replicate 480 [0, 0])) @
         replicate 400 (Vad_returns True, concat (replicate 480 [0xF4, 0x01]))"
        "replicate 1004 None @
         [Some (concat (replicate 600 (concat (replicate 480 [0xF4, 0x01])) @
                        replicate 5 (concat (replicate 480 [0, 0])) @
                        replicate 400 (concat (replicate 480 [0xF4, 0x01]))))]"
        "AudioBuffer_init 16000" 1004
        "concat (replicate 600 (concat (replicate 480 [0xF4, 0x01])) @
                 replicate 5 (concat (replicate 480 [0, 0])) @
                 replicate 400 (concat (replicate 480 [0xF4, 0x01])))"
        960]
    feed_interleaved_example
  by (simp add: idle_init init_fields classify_loud nth_append length_concat sum_list_replicate)

section \<open>Command matcher: the claims\<close>

lemmas text_simps =
  split_def isspace_def unicode_isspace_def strip_def unicode_strip_def rstrip_chars_def
  lower_def lower_char_def

text \<open>
  Claim C3 says that a rule matches exactly when the transcript equals the pattern or the
  pattern's words form a subsequence of the transcript's words. The code compares the
  positions of the \<^emph>\<open>first\<close> occurrence of each pattern word. With the transcript
  \<open>turn on the light on the porch\<close> and the pattern \<open>turn the light on\<close>, the pattern's
  words are a subsequence of the transcript's words, but the first \<open>on\<close> stands before
  \<open>the\<close>, so the code finds no match.
\<close>

theorem C3_repeated_word_defeats_order_check:
  "process_command ''turn on the light on the porch''
     [\<lparr>pattern = Some ''turn the light on'', actions = ()\<rparr>] = Inr None \<and>
   subseq (split ''turn the light on'') (split ''turn on the light on the porch'')"
  by (simp add: process_command_def command_matches_def text_simps Let_def)

text \<open>
  The examples of the specification behave as it says. In the other direction, a pattern
  that repeats a word matches a transcript holding the word once, since equal positions
  count as sorted.
\<close>

lemma match_examples:
  "process_command ''please turn light on now'' [\<lparr>pattern = Some ''light on'', actions = ()\<rparr>]
     = Inr (Some \<lparr>pattern = Some ''light on'', actions = ()\<rparr>)"
  "process_command ''please turn light on now'' [\<lparr>pattern = Some ''on light'', actions = ()\<rparr>]
     = Inr None"
  "process_command ''on'' [\<lparr>pattern = Some ''on on'', actions = ()\<rparr>]
     = Inr (Some \<lparr>pattern = Some ''on on'', actions = ()\<rparr>)"
  "\<not> subseq (split ''on on'') (split ''on'')"
  by (simp_all add: process_command_def command_matches_def text_simps Let_def)

text \<open>
  The rules are tried in the configured order and the first one that matches wins; when
  none matches the result is \<open>None\<close>. (A rule without a pattern raises \<^verbatim>\<open>KeyError\<close> when the
  loop reaches it.)
\<close>

lemma first_match_is_find:
  assumes "\<forall>c\<in>set commands. pattern c \<noteq> None"
  shows "first_match text_clean commands =
           Inr (find (\<lambda>c. command_matches text_clean c = Inr True) commands)"
  using assms
proof (induction commands)
  case Nil
  then show ?case by simp
next
  case (Cons c cs)
  then obtain p where "pattern c = Some p" by auto
  then have "\<exists>b. command_matches text_clean c = Inr b"
    by (auto simp: command_matches_def Let_def split: sum.splits)
  then obtain b where "command_matches text_clean c = Inr b" ..
  with Cons show ?case by (cases b) simp_all
qed

text \<open>
  How far the word-order test agrees with the subsequence relation: a match implies
  that the pattern's words are a subsequence of the transcript's words when no word is
  repeated in the pattern, and a subsequence is matched when no word is repeated in the
  transcript.
\<close>

lemma index_Cons_other:
  "w \<noteq> t \<Longrightarrow> index (t # ts) w = (case index ts w of Inl e \<Rightarrow> Inl e | Inr i \<Rightarrow> Inr (Suc i))"
  by simp

lemma index_in: "w \<in> set xs \<Longrightarrow> \<exists>i. index xs w = Inr i"
  by (induction xs) auto

lemma indices_of_in:
  "\<forall>w\<in>set ws. w \<in> set xs \<Longrightarrow> \<exists>is. indices_of xs ws = Inr is"
proof (induction ws)
  case Nil
  then show ?case by simp
next
  case (Cons w ws)
  then obtain i where "index xs w = Inr i" using index_in[of w xs] by auto
  moreover from Cons obtain js where "indices_of xs ws = Inr js" by auto
  ultimately show ?case by simp
qed

lemma indices_of_Cons_other:
  assumes "t \<notin> set ws" "indices_of ts ws = Inr is"
  shows "indices_of (t # ts) ws = Inr (map Suc is)"
  using assms
proof (induction ws arbitrary: "is")
  case Nil
  then show ?case by simp
next
  case (Cons w ws)
  from Cons.prems(2) obtain i js where i: "index ts w = Inr i" and js: "indices_of ts ws = Inr js"
    and is_eq: "is = i # js"
    by (auto split: sum.splits)
  from Cons.prems(1) have "w \<noteq> t" "t \<notin> set ws" by auto
  with Cons.IH[OF _ js] i is_eq show ?case by simp
qed

lemma indices_of_member:
  assumes "indices_of xs ws = Inr is" "w \<in> set ws"
  shows "\<exists>i\<in>set is. index xs w = Inr i"
  using assms
  by (induction ws arbitrary: "is") (auto split: sum.splits)

lemma sort_eq_iff_sorted: "(is = sort is) \<longleftrightarrow> sorted (is :: nat list)"
  by (metis sorted_sort sorted_sort_id)

lemma order_checkI:
  assumes "\<forall>w\<in>set pw. w \<in> set tw" "indices_of tw pw = Inr is" "sorted is"
  shows "order_check tw pw"
proof -
  have "is = sort is" using assms(3) by (simp add: sorted_sort_id)
  with assms(1,2) show ?thesis unfolding order_check_def by simp
qed

lemma order_checkD:
  assumes "order_check tw pw"
  shows "\<exists>is. indices_of tw pw = Inr is \<and> sorted is \<and> (\<forall>w\<in>set pw. w \<in> set tw)"
proof -
  from assms obtain "is" where "indices_of tw pw = Inr is" "is = sort is"
    and "\<forall>w\<in>set pw. w \<in> set tw"
    unfolding order_check_def by (cases "indices_of tw pw") auto
  moreover from this(2) have "sorted is" by (metis sorted_sort)
  ultimately show ?thesis by blast
qed

lemma order_check_sound:
  assumes "order_check tw pw" "distinct pw"
  shows "subseq pw tw"
  using assms
proof (induction tw arbitrary: pw)
  case Nil
  then show ?case by (cases pw) (auto simp: order_check_def)
next
  case (Cons t ts)
  show ?case
  proof (cases pw)
    case Nil
    then show ?thesis by simp
  next
    case (Cons p ps)
    from order_checkD[OF Cons.prems(1)]
    obtain "is" where "is": "indices_of (t # ts) pw = Inr is" "sorted is"
      and all_in: "\<forall>w\<in>set pw. w \<in> set (t # ts)"
      by blast
    show ?thesis
    proof (cases "p = t")
      case True
      from Cons.prems(2) Cons have t_ps: "t \<notin> set ps" and dps: "distinct ps" using True by auto
      with all_in Cons have ps_in: "\<forall>w\<in>set ps. w \<in> set ts" by auto
      then obtain js where js: "indices_of ts ps = Inr js" using indices_of_in by blast
      from indices_of_Cons_other[OF t_ps js] "is" Cons True have "is = 0 # map Suc js" by simp
      with "is"(2) have "sorted js" by (simp add: sorted_map)
      with ps_in js have "order_check ts ps" by (intro order_checkI)
      from Cons.IH[OF this dps] Cons True show ?thesis by simp
    next
      case False
      from all_in Cons False have "p \<in> set ts" by auto
      then have "\<exists>i. index ts p = Inr i" by (rule index_in)
      then obtain i where i: "index ts p = Inr i" ..
      have "index (t # ts) p = Inr (Suc i)" using i False by simp
      with "is"(1) Cons obtain rest where is_eq: "is = Suc i # rest"
        by (cases "indices_of (t # ts) ps") auto
      have t_pw: "t \<notin> set pw"
      proof
        assume "t \<in> set pw"
        from indices_of_member[OF "is"(1) this] have "0 \<in> set is" by simp
        with "is"(2) is_eq show False by auto
      qed
      with all_in have pw_in: "\<forall>w\<in>set pw. w \<in> set ts" by auto
      then obtain js where js: "indices_of ts pw = Inr js" using indices_of_in by blast
      from indices_of_Cons_other[OF t_pw js] "is"(1) have "is = map Suc js" by simp
      with "is"(2) have "sorted js" by (simp add: sorted_map)
      with pw_in js have "order_check ts pw" by (intro order_checkI)
      from Cons.IH[OF this Cons.prems(2)] show ?thesis by (rule list_emb_Cons)
    qed
  qed
qed

lemma order_check_complete:
  "subseq pw tw \<Longrightarrow> distinct tw \<Longrightarrow> order_check tw pw"
proof (induction tw arbitrary: pw)
  case Nil
  then have "pw = []" by simp
  then show ?case by (simp add: order_check_def)
next
  case (Cons t ts)
  have dts: "distinct ts" and t_ts: "t \<notin> set ts" using Cons.prems(2) by auto
  show ?case
  proof (cases pw)
    case Nil
    then show ?thesis by (simp add: order_check_def)
  next
    case (Cons p ps)
    show ?thesis
    proof (cases "p = t")
      case True
      with Cons.prems(1) Cons have sub: "subseq ps ts" by simp
      from order_checkD[OF Cons.IH[OF sub dts]]
      obtain js where js: "indices_of ts ps = Inr js" "sorted js"
        and ps_in: "\<forall>w\<in>set ps. w \<in> set ts"
        by blast
      from ps_in t_ts have "t \<notin> set ps" by auto
      from indices_of_Cons_other[OF this js(1)] have "indices_of (t # ts) pw = Inr (0 # map Suc js)"
        using Cons True by simp
      moreover have "sorted (0 # map Suc js)" using js(2) by (simp add: sorted_map)
      moreover have "\<forall>w\<in>set pw. w \<in> set (t # ts)" using ps_in Cons True by simp
      ultimately show ?thesis by (intro order_checkI)
    next
      case False
      with Cons.prems(1) Cons have sub: "subseq pw ts" by simp
      from order_checkD[OF Cons.IH[OF sub dts]]
      obtain js where js: "indices_of ts pw = Inr js" "sorted js"
        and pw_in: "\<forall>w\<in>set pw. w \<in> set ts"
        by blast
      from pw_in t_ts have "t \<notin> set pw" by auto
      from indices_of_Cons_other[OF this js(1)] have "indices_of (t # ts) pw = Inr (map Suc js)" .
      moreover have "sorted (map Suc js)" using js(2) by (simp add: sorted_map)
      moreover have "\<forall>w\<in>set pw. w \<in> set (t # ts)" using pw_in by simp
      ultimately show ?thesis by (intro order_checkI)
    qed
  qed
qed

lemma command_matches_order_check:
  assumes "pattern c = Some p"
  shows "command_matches t c =
           Inr (t = strip (lower p) \<or> order_check (split t) (split (strip (lower p))))"
  using assms
  by (cases "indices_of (split t) (split (strip (lower p)))")
     (simp_all add: command_matches_def order_check_def Let_def)

lemma command_matches_sound:
  assumes "pattern c = Some p" "distinct (split (strip (lower p)))"
    and "command_matches t c = Inr True"
  shows "t = strip (lower p) \<or> subseq (split (strip (lower p))) (split t)"
  using assms order_check_sound[of "split t" "split (strip (lower p))"]
  by (auto simp: command_matches_order_check)

lemma command_matches_complete:
  assumes "pattern c = Some p" "distinct (split t)"
    and "t = strip (lower p) \<or> subseq (split (strip (lower p))) (split t)"
  shows "command_matches t c = Inr True"
  using assms order_check_complete[of "split (strip (lower p))" "split t"]
  by (auto simp: command_matches_order_check)

section \<open>Transcription client: the claims\<close>

lemma response_timeout_clamped: "30 \<le> response_timeout n \<and> response_timeout n \<le> 60"
  by (simp add: response_timeout_def Let_def)

lemma send_audio_silent_server:
  assumes "accepts srv" "failing_write srv = None" "reads srv = []" "width * channels \<noteq> 0"
  shows "result (send_audio srv audio rate width channels) = None"
    and "waited (send_audio srv audio rate width channels) = Some 5"
  using assms response_timeout_clamped[of "length audio"]
  by (simp_all add: send_audio_def Let_def)

text \<open>
  Claim C4 says that after a 2-second utterance (64000 bytes) a server that never responds
  makes the call return \<open>None\<close> between 30 and 60 seconds after the send. The timeout
  computed for such an utterance is 30 seconds, but the first read already gives up after
  5 seconds and its \<^verbatim>\<open>TimeoutError\<close> ends the call: it returns \<open>None\<close> 5 seconds after the
  send.
\<close>

theorem C4_silent_server_times_out_after_5s:
  "response_timeout 64000 = 30 \<and>
   result (send_audio \<lparr>accepts = True, failing_write = None, reads = []\<rparr>
             (replicate 64000 0) 16000 2 1) = None \<and>
   waited (send_audio \<lparr>accepts = True, failing_write = None, reads = []\<rparr>
             (replicate 64000 0) 16000 2 1) = Some 5"
  by (simp add: send_audio_silent_server) (simp add: response_timeout_def)

text \<open>
  Stripping leaves nothing exactly when every code point of the string is whitespace.
\<close>

lemma rstrip_chars_empty_iff: "rstrip_chars p s = [] \<longleftrightarrow> (\<forall>c\<in>set s. p c)"
  by (simp add: rstrip_chars_def dropWhile_eq_Nil_conv)

lemma unicode_strip_empty_iff: "unicode_strip s = [] \<longleftrightarrow> (\<forall>c\<in>set s. unicode_isspace c)"
proof
  assume "unicode_strip s = []"
  then have 1: "\<forall>c\<in>set (dropWhile unicode_isspace s). unicode_isspace c"
    by (simp add: unicode_strip_def rstrip_chars_empty_iff)
  have "dropWhile unicode_isspace s = []"
  proof (rule ccontr)
    assume "dropWhile unicode_isspace s \<noteq> []"
    then have "\<not> unicode_isspace (hd (dropWhile unicode_isspace s))"
      by (rule hd_dropWhile)
    moreover have "hd (dropWhile unicode_isspace s) \<in> set (dropWhile unicode_isspace s)"
      using \<open>dropWhile unicode_isspace s \<noteq> []\<close> by simp
    ultimately show False using 1 by blast
  qed
  then show "\<forall>c\<in>set s. unicode_isspace c" by (simp add: dropWhile_eq_Nil_conv)
next
  assume "\<forall>c\<in>set s. unicode_isspace c"
  then have "dropWhile unicode_isspace s = []" by (simp add: dropWhile_eq_Nil_conv)
  then show "unicode_strip s = []"
    by (simp only: unicode_strip_def rstrip_chars_def rev.simps dropWhile.simps)
qed

lemma await_transcript_never_empty:
  "fst (await_transcript timeout elapsed rs) \<noteq> Some []"
  by (induction timeout elapsed rs rule: await_transcript.induct)
     (auto simp: Let_def split: read_result.splits event.splits option.splits)

lemma await_transcript_stops_without_text:
  assumes "\<forall>p\<in>set pre. snd p = Event Other_event"
    and "x = End_of_stream \<or> x = Read_raises \<or> x = Event (Transcript None) \<or>
         (\<exists>t. x = Event (Transcript (Some t)) \<and> unicode_strip t = [])"
  shows "fst (await_transcript timeout elapsed (pre @ (d, x) # rest)) = None"
  using assms
proof (induction pre arbitrary: elapsed)
  case Nil
  then show ?case by (auto simp: Let_def)
next
  case (Cons p pre)
  obtain d0 r0 where p: "p = (d0, r0)" by (cases p)
  with Cons.prems have r0: "r0 = Event Other_event" by simp
  show ?case
    using Cons.IH[of "elapsed + d0"] Cons.prems p r0 by simp
qed




text \<open>
  The older client does reuse its socket, and keeps it when the receive fails.
\<close>

lemma legacy_reuses_healthy_connection:
  "connect_attempts (legacy_send_audio True io audio) = 0"
  by (simp add: legacy_send_audio_def Let_def split: option.splits)

lemma legacy_disconnects_on_non_object_reply:
  "legacy_send_audio True \<lparr>connect_succeeds = True, failing_send = None, received = Received_non_object\<rparr> audio
     = \<lparr>legacy_result = None, socket_after = False, connect_attempts = 0\<rparr>"
  by (simp add: legacy_send_audio_def Let_def)

lemma legacy_keeps_socket_after_failed_receive:
  "legacy_send_audio True \<lparr>connect_succeeds = True, failing_send = None, received = Received_nothing\<rparr> audio
     = \<lparr>legacy_result = None, socket_after = True, connect_attempts = 0\<rparr>"
  by (simp add: legacy_send_audio_def Let_def)

text \<open>
  Claim C10. \<^verbatim>\<open>send_audio\<close> never returns the empty string. When the first transcript that
  arrives, after any number of other events, has a text that is empty once stripped (it
  consists of Unicode whitespace only, by \<open>unicode_strip_empty_iff\<close>), the call returns
  \<open>None\<close>. The text is any sequence of code points.
\<close>

theorem C10_empty_transcript_gives_None:
  "result (send_audio srv audio rate width channels) \<noteq> Some [] \<and>
   (reads srv = pre @ (d, Event (Transcript (Some t))) # rest \<and>
    (\<forall>p\<in>set pre. snd p = Event Other_event) \<and> unicode_strip t = [] \<longrightarrow>
    result (send_audio srv audio rate width channels) = None)"
proof -
  let ?T = "response_timeout (length audio)"
  have res: "result (send_audio srv audio rate width channels) = None \<or>
      result (send_audio srv audio rate width channels) = fst (await_transcript ?T 0 (reads srv))"
    by (simp add: send_audio_def Let_def split: prod.splits)
  then have a: "result (send_audio srv audio rate width channels) \<noteq> Some []"
    using await_transcript_never_empty[of ?T 0 "reads srv"] by auto
  have b: "result (send_audio srv audio rate width channels) = None"
    if "reads srv = pre @ (d, Event (Transcript (Some t))) # rest"
      "\<forall>p\<in>set pre. snd p = Event Other_event" "unicode_strip t = []"
  proof -
    have "fst (await_transcript ?T 0 (reads srv)) = None"
      unfolding that(1) using that(2,3) by (intro await_transcript_stops_without_text) auto
    with res show ?thesis by auto
  qed
  from a b show ?thesis by blast
qed

theorem C10_witness:
  "unicode_strip [0xA0, 0x20, 0x85, 0x3000] = [] \<and>
   result (send_audio \<lparr>accepts = True, failing_write = None,
                       reads = [(1, Event Other_event),
                                (2, Event (Transcript (Some [0xA0, 0x20, 0x85, 0x3000])))]\<rparr>
             (replicate 64000 0) 16000 2 1) = None"
  using C10_empty_transcript_gives_None
    [of "\<lparr>accepts = True, failing_write = None,
          reads = [(1, Event Other_event),
                   (2, Event (Transcript (Some [0xA0, 0x20, 0x85, 0x3000])))]\<rparr>"
        "replicate 64000 0" 16000 2 1 "[(1, Event Other_event)]" 2
        "[0xA0, 0x20, 0x85, 0x3000]" "[]"]
  by (simp add: text_simps)

section \<open>Action dispatcher: the claims\<close>

text \<open>
  Claim C7, as amended. The token is the value of \<^verbatim>\<open>SUPERVISOR_TOKEN\<close> when that variable is
  set to a non-empty string, and otherwise the value of \<^verbatim>\<open>HASSIO_TOKEN\<close>. The action is
  skipped for lack of a token exactly when neither variable is set to a non-empty string;
  the method returns in every case, so the process goes on.
\<close>

theorem C7_first_nonempty_token:
  "(execute_action environ json_loads post cfg = No_token \<longleftrightarrow>
      \<not> truthy (map_of environ ''SUPERVISOR_TOKEN'') \<and> \<not> truthy (map_of environ ''HASSIO_TOKEN'')) \<and>
   (execute_action environ json_loads post cfg = Posted req ok \<longrightarrow>
      bearer req \<noteq> [] \<and>
      Some (bearer req) =
        (if truthy (map_of environ ''SUPERVISOR_TOKEN'') then map_of environ ''SUPERVISOR_TOKEN''
         else map_of environ ''HASSIO_TOKEN''))"
  by (auto simp: execute_action_def Let_def truthy_def
       split: option.splits sum.splits prod.splits if_splits)

theorem C7_witness:
  "execute_action [(''PATH'', ''/usr/bin'')] None (Some True)
     \<lparr>action = Some ''light.turn_on'', entity_id = Some ''light.kitchen'', service_data = Inl ()\<rparr>
     = No_token \<and>
   execute_action [(''HASSIO_TOKEN'', ''abc'')] None (Some True)
     \<lparr>action = Some ''light.turn_on'', entity_id = Some ''light.kitchen'', service_data = Inl ()\<rparr>
     = Posted \<lparr>url = ''http://supervisor/core/api/services/light/turn_on'', bearer = ''abc'',
               entity = Some ''light.kitchen'', data = ()\<rparr> True"
  using C7_first_nonempty_token
    [of "[(''PATH'', ''/usr/bin'')]" None "Some True"
        "\<lparr>action = Some ''light.turn_on'', entity_id = Some ''light.kitchen'', service_data = Inl ()\<rparr>"]
  by (simp add: truthy_def) (simp add: execute_action_def truthy_def)

text \<open>
  Claim C7 as stated fails when the first variable is present but empty: the second one
  is used.
\<close>

theorem C7_counterexample:
  "map_of [(''SUPERVISOR_TOKEN'', ''''), (''HASSIO_TOKEN'', ''abc'')] ''SUPERVISOR_TOKEN'' = Some '''' \<and>
   execute_action [(''SUPERVISOR_TOKEN'', ''''), (''HASSIO_TOKEN'', ''abc'')] None (Some True)
     \<lparr>action = Some ''light.turn_on'', entity_id = Some ''light.kitchen'', service_data = Inl ()\<rparr>
     = Posted \<lparr>url = ''http://supervisor/core/api/services/light/turn_on'', bearer = ''abc'',
               entity = Some ''light.kitchen'', data = ()\<rparr> True"
  by (simp add: execute_action_def truthy_def)

end
